theory Spec2Isabelle
  imports Main
begin

section \<open>JavaScript values handled by the client\<close>

text \<open>
  The values that reach the token store and the refresh handler come from JSON bodies
  (\<^verbatim>\<open>res.data\<close>, \<^verbatim>\<open>r.data?.access\<close>) or are the literal \<^verbatim>\<open>null\<close>.
  Numbers are the integers; \<^verbatim>\<open>NaN\<close>, fractions, arrays and objects are left out.
\<close>

datatype jsval = JUndefined | JNull | JBool bool | JNum int | JStr string

text \<open>Truthiness, as \<^verbatim>\<open>if (v)\<close> and \<^verbatim>\<open>!v\<close> read it.\<close>

fun truthy :: "jsval \<Rightarrow> bool" where
  "truthy JUndefined = False"
| "truthy JNull = False"
| "truthy (JBool b) = b"
| "truthy (JNum n) = (n \<noteq> 0)"
| "truthy (JStr s) = (s \<noteq> [])"

function show_nat :: "nat \<Rightarrow> string" where
  "show_nat n =
     (if n < 10 then [''0123456789'' ! n]
      else show_nat (n div 10) @ [''0123456789'' ! (n mod 10)])"
  by pat_completeness auto
termination
  by (relation "measure id") auto

text \<open>
  The string conversion that \<^verbatim>\<open>localStorage.setItem\<close> and a template literal
  apply to a value.
\<close>

fun js_String :: "jsval \<Rightarrow> string" where
  "js_String JUndefined = ''undefined''"
| "js_String JNull = ''null''"
| "js_String (JBool b) = (if b then ''true'' else ''false'')"
| "js_String (JNum n) = (if n < 0 then CHR ''-'' # show_nat (nat (- n)) else show_nat (nat n))"
| "js_String (JStr s) = s"

section \<open>The token store (apiClient.js, lines 17-37)\<close>

text \<open>
  \<^verbatim>\<open>localStorage\<close> maps keys to strings; \<^verbatim>\<open>getItem\<close> of an absent key
  is \<^verbatim>\<open>null\<close>, modelled as \<open>None\<close>.
\<close>

type_synonym storage = "string \<rightharpoonup> string"

definition getItem :: "string \<Rightarrow> storage \<Rightarrow> string option" where
  "getItem k ls = ls k"

definition setItem :: "string \<Rightarrow> jsval \<Rightarrow> storage \<Rightarrow> storage" where
  "setItem k v ls = ls(k \<mapsto> js_String v)"

definition removeItem :: "string \<Rightarrow> storage \<Rightarrow> storage" where
  "removeItem k ls = ls(k := None)"

definition get_access :: "storage \<Rightarrow> string option" where
  "get_access ls = getItem ''access'' ls"

definition set_access :: "jsval \<Rightarrow> storage \<Rightarrow> storage" where
  "set_access v ls = (if truthy v then setItem ''access'' v ls else removeItem ''access'' ls)"

definition get_refresh :: "storage \<Rightarrow> string option" where
  "get_refresh ls = getItem ''refresh'' ls"

definition set_refresh :: "jsval \<Rightarrow> storage \<Rightarrow> storage" where
  "set_refresh v ls = (if truthy v then setItem ''refresh'' v ls else removeItem ''refresh'' ls)"

definition clear :: "storage \<Rightarrow> storage" where
  "clear ls = set_refresh JNull (set_access JNull ls)"

section \<open>Requests, errors and promises\<close>

text \<open>
  An axios request config, as far as the pipeline reads or writes it: \<open>url\<close> stands
  for everything the pipeline passes on untouched (URL, method, body), \<open>headers\<close> for
  the header object (an absent one is the empty map, which is what
  \<^verbatim>\<open>original.headers || {}\<close> makes of it) and \<open>isRetryRequest\<close> for the custom
  flag \<^verbatim>\<open>__isRetryRequest\<close> (absent reads as false).
\<close>

record request =
  url :: string
  headers :: "string \<rightharpoonup> string"
  isRetryRequest :: bool

text \<open>The object \<^verbatim>\<open>{}\<close> of \<^verbatim>\<open>error.config || {}\<close>.\<close>

definition empty_config :: request where
  "empty_config = \<lparr>url = [], headers = Map.empty, isRetryRequest = False\<rparr>"

text \<open>
  The error an axios call rejects with: \<open>config\<close> is \<^verbatim>\<open>error.config\<close>,
  \<open>status\<close> is \<^verbatim>\<open>error?.response?.status\<close> (\<open>None\<close> when there is no response),
  \<open>err_id\<close> tells one error object from another.
\<close>

record axios_error =
  err_id :: nat
  config :: "request option"
  status :: "nat option"

text \<open>
  What a promise rejects with: an axios error, or the \<^verbatim>\<open>Error\<close> thrown at line 73
  with its message.
\<close>

datatype rejection = AxiosError axios_error | PlainError string

text \<open>
  How the promise returned to a caller is settled: \<^verbatim>\<open>resolve(api(original))\<close> ties
  it to the replayed call, \<^verbatim>\<open>reject(e)\<close> rejects it. The first settlement stands.
\<close>

datatype settlement = Replayed request | Rejected rejection

text \<open>
  A subscriber is the closure pushed at lines 90-93; it captures the config
  \<^verbatim>\<open>original\<close> and the \<^verbatim>\<open>resolve\<close> of the promise created at line 89.
\<close>

record subscriber =
  original :: request
  promise :: nat

text \<open>
  Calls handed to the transport: the refresh call made with the global axios (its body
  carries the refresh token), or a call through the \<^verbatim>\<open>api\<close> instance, with the config
  as it leaves the request interceptor.
\<close>

datatype net_call = RefreshCall string | ApiCall request

text \<open>
  How the refresh call ends: a 2xx response, given by the value of
  \<^verbatim>\<open>r.data?.access\<close> (\<open>JUndefined\<close> when the body has no access field), or a
  rejection (network failure or a status outside 2xx).
\<close>

datatype refresh_result = Fulfilled jsval | Failed rejection

text \<open>
  The module state of apiClient.js (\<open>isRefreshing\<close>, \<open>refreshPromise\<close>,
  \<open>subscribers\<close>) with the browser state it acts on. A pending \<open>refreshPromise\<close>
  is given by the promises whose \<^verbatim>\<open>reject\<close> was attached to it with
  \<^verbatim>\<open>.catch(reject)\<close>, in order. The remaining fields record what the code does to
  the outside: the calls issued, the refresh calls not yet answered, the settled caller
  promises, and the subscriber invocations.
\<close>

record pipeline =
  localStorage :: storage
  isRefreshing :: bool
  refreshPromise :: "nat list option"
  subscribers :: "subscriber list"
  network :: "net_call list"
  refresh_pending :: nat
  settled :: "nat \<rightharpoonup> settlement"
  notified :: "(nat \<times> jsval) list"
  next_promise :: nat

section \<open>The request pipeline (apiClient.js, lines 5-15 and 39-100)\<close>

definition addSubscriber :: "subscriber \<Rightarrow> pipeline \<Rightarrow> pipeline" where
  "addSubscriber cb s = s\<lparr>subscribers := subscribers s @ [cb]\<rparr>"

text \<open>
  Writing the header \<^verbatim>\<open>Authorization: Bearer ...\<close> into a config (lines 47 and 91);
  the other headers and fields stay.
\<close>

definition bearer :: "string \<Rightarrow> request \<Rightarrow> request" where
  "bearer token c = c\<lparr>headers := (headers c)(''Authorization'' \<mapsto> ''Bearer '' @ token)\<rparr>"

text \<open>The request interceptor, lines 45-49.\<close>

definition request_interceptor :: "storage \<Rightarrow> request \<Rightarrow> request" where
  "request_interceptor ls c =
     (case get_access ls of
        None \<Rightarrow> c
      | Some token \<Rightarrow>
          if token \<noteq> [] then bearer token c else c)"

text \<open>
  \<^verbatim>\<open>api(config)\<close>: the config passes the request interceptor and goes to the
  transport.
\<close>

definition api :: "request \<Rightarrow> pipeline \<Rightarrow> pipeline" where
  "api c s = s\<lparr>network := network s @ [ApiCall (request_interceptor (localStorage s) c)]\<rparr>"

text \<open>Settling a promise: a promise that is already settled stays as it is.\<close>

definition settle :: "nat \<Rightarrow> settlement \<Rightarrow> pipeline \<Rightarrow> pipeline" where
  "settle p out s =
     (case settled s p of
        None \<Rightarrow> s\<lparr>settled := (settled s)(p \<mapsto> out)\<rparr>
      | Some _ \<Rightarrow> s)"

text \<open>
  The body of a subscriber, lines 91-92: the header is rewritten, \<^verbatim>\<open>api(original)\<close>
  is called, and the caller's promise is resolved with that call.
\<close>

definition invoke :: "jsval \<Rightarrow> subscriber \<Rightarrow> pipeline \<Rightarrow> pipeline" where
  "invoke newAccess cb s =
     (let original' = bearer (js_String newAccess) (original cb);
          s1 = api original' (s\<lparr>notified := notified s @ [(promise cb, newAccess)]\<rparr>)
      in settle (promise cb) (Replayed original') s1)"

text \<open>\<^verbatim>\<open>onRefreshed\<close>, lines 9-12: every subscriber in array order, then the array is emptied.\<close>

definition onRefreshed :: "jsval \<Rightarrow> pipeline \<Rightarrow> pipeline" where
  "onRefreshed newAccess s =
     (foldl (\<lambda>s' cb. invoke newAccess cb s') s (subscribers s))\<lparr>subscribers := []\<rparr>"

text \<open>
  What the error handler of the response interceptor returns: the rejected promise
  \<^verbatim>\<open>Promise.reject(error)\<close>, or the pending promise created at line 89.
\<close>

datatype outcome = Propagate axios_error | Await nat

text \<open>Lines 66-85, up to the point where the refresh call is on its way.\<close>

definition start_refresh :: "string \<Rightarrow> request \<Rightarrow> pipeline \<Rightarrow> request \<times> pipeline" where
  "start_refresh refresh orig s =
     (orig\<lparr>isRetryRequest := True\<rparr>,
      s\<lparr>isRefreshing := True,
        refreshPromise := Some [],
        network := network s @ [RefreshCall refresh],
        refresh_pending := Suc (refresh_pending s)\<rparr>)"

text \<open>\<^verbatim>\<open>error.config || {}\<close>, line 55.\<close>

definition config_of :: "axios_error \<Rightarrow> request" where
  "config_of err = (case config err of None \<Rightarrow> empty_config | Some c \<Rightarrow> c)"

text \<open>The error handler of the response interceptor, lines 54-99.\<close>

definition response_error :: "axios_error \<Rightarrow> pipeline \<Rightarrow> outcome \<times> pipeline" where
  "response_error err s =
     (let orig = config_of err in
      if status err = Some 401 \<and> \<not> isRetryRequest orig then
        (case get_refresh (localStorage s) of
           None \<Rightarrow> (Propagate err, s\<lparr>localStorage := clear (localStorage s)\<rparr>)
         | Some refresh \<Rightarrow>
             if refresh = [] then (Propagate err, s\<lparr>localStorage := clear (localStorage s)\<rparr>)
             else
               (let (orig1, s1) =
                      (if \<not> isRefreshing s then start_refresh refresh orig s
                       else (orig, s));
                    p = next_promise s1;
                    s2 = addSubscriber \<lparr>original = orig1, promise = p\<rparr>
                           (s1\<lparr>next_promise := Suc p\<rparr>);
                    s3 = (case refreshPromise s2 of
                            None \<Rightarrow> s2
                          | Some rs \<Rightarrow> s2\<lparr>refreshPromise := Some (rs @ [p])\<rparr>)
                in (Await p, s3)))
      else (Propagate err, s))"

text \<open>The handlers chained on the refresh call, lines 71-85.\<close>

definition refresh_then :: "jsval \<Rightarrow> pipeline \<Rightarrow> rejection + pipeline" where
  "refresh_then newAccess s =
     (if \<not> truthy newAccess then Inl (PlainError ''No access token in refresh response'')
      else Inr (onRefreshed newAccess (s\<lparr>localStorage := set_access newAccess (localStorage s)\<rparr>)))"

definition refresh_catch :: "rejection \<Rightarrow> pipeline \<Rightarrow> rejection \<times> pipeline" where
  "refresh_catch e s = (e, s\<lparr>localStorage := clear (localStorage s)\<rparr>)"

definition refresh_finally :: "pipeline \<Rightarrow> pipeline" where
  "refresh_finally s = s\<lparr>isRefreshing := False, refreshPromise := None\<rparr>"

text \<open>The promises whose \<^verbatim>\<open>reject\<close> is attached to the pending refresh promise.\<close>

definition waiting :: "pipeline \<Rightarrow> nat list" where
  "waiting s = (case refreshPromise s of None \<Rightarrow> [] | Some rs \<Rightarrow> rs)"

text \<open>
  The answer to the refresh call arrives: the chain then / catch / finally runs, and when
  the chain ends rejected, the \<^verbatim>\<open>reject\<close> functions attached at line 94 are called
  with the error, in the order they were attached. The event loop runs all of this before
  the next network answer is handled.
\<close>

definition refresh_settled :: "refresh_result \<Rightarrow> pipeline \<Rightarrow> pipeline" where
  "refresh_settled res s =
     (let rejecters = waiting s;
          s0 = s\<lparr>refresh_pending := refresh_pending s - 1\<rparr>
      in case (case res of Fulfilled v \<Rightarrow> refresh_then v s0 | Failed e \<Rightarrow> Inl e) of
           Inr s1 \<Rightarrow> refresh_finally s1
         | Inl e \<Rightarrow>
             (let (e', s1) = refresh_catch e s0;
                  s2 = refresh_finally s1
              in foldl (\<lambda>s' p. settle p (Rejected e') s') s2 rejecters))"

section \<open>Executions\<close>

text \<open>
  What can happen to the pipeline: a component calls \<^verbatim>\<open>api(config)\<close>; a call made
  through \<^verbatim>\<open>api\<close> fails and the error handler runs; the refresh call is answered;
  \<^verbatim>\<open>login\<close> of authService.js stores both tokens; \<^verbatim>\<open>logout\<close> clears the store;
  another component writes \<^verbatim>\<open>localStorage\<close> directly (Login.jsx, Navbar.jsx).
\<close>

datatype event =
    Call request
  | ResponseError axios_error
  | RefreshSettled refresh_result
  | Login jsval jsval
  | Logout
  | SetItem string jsval
  | RemoveItem string

text \<open>An answer to the refresh call can only arrive while one is outstanding.\<close>

definition step :: "event \<Rightarrow> pipeline \<Rightarrow> pipeline" where
  "step ev s =
     (case ev of
        Call c \<Rightarrow> api c s
      | ResponseError err \<Rightarrow> snd (response_error err s)
      | RefreshSettled res \<Rightarrow> (if refresh_pending s = 0 then s else refresh_settled res s)
      | Login a r \<Rightarrow> s\<lparr>localStorage := set_refresh r (set_access a (localStorage s))\<rparr>
      | Logout \<Rightarrow> s\<lparr>localStorage := clear (localStorage s)\<rparr>
      | SetItem k v \<Rightarrow> s\<lparr>localStorage := setItem k v (localStorage s)\<rparr>
      | RemoveItem k \<Rightarrow> s\<lparr>localStorage := removeItem k (localStorage s)\<rparr>)"

definition run :: "pipeline \<Rightarrow> event list \<Rightarrow> pipeline" where
  "run s evs = foldl (\<lambda>s' ev. step ev s') s evs"

text \<open>The state when the module is loaded, over whatever \<^verbatim>\<open>localStorage\<close> holds.\<close>

definition init :: "storage \<Rightarrow> pipeline" where
  "init ls =
     \<lparr>localStorage = ls, isRefreshing = False, refreshPromise = None, subscribers = [],
      network = [], refresh_pending = 0, settled = Map.empty, notified = [],
      next_promise = 0\<rparr>"

section \<open>Reachable states and scenarios\<close>

text \<open>
  What holds of every state an execution reaches: the module flag, the promise variable and
  the number of unanswered refresh calls agree; promise identifiers are handed out in
  order; the promises attached to the pending refresh promise are unsettled; and a
  subscriber whose promise is unsettled is attached to the pending refresh promise.
\<close>

definition pipeline_inv :: "pipeline \<Rightarrow> bool" where
  "pipeline_inv s \<longleftrightarrow>
     refresh_pending s = (if isRefreshing s then 1 else 0)
     \<and> (isRefreshing s \<longleftrightarrow> refreshPromise s \<noteq> None)
     \<and> (\<forall>p. settled s p \<noteq> None \<longrightarrow> p < next_promise s)
     \<and> (\<forall>p \<in> set (waiting s). p < next_promise s \<and> settled s p = None)
     \<and> (\<forall>cb \<in> set (subscribers s). promise cb < next_promise s
            \<and> (settled s (promise cb) = None \<longrightarrow> promise cb \<in> set (waiting s)))"

text \<open>
  A config as a component passes it (\<^verbatim>\<open>api.get(url)\<close>), and the error of a call
  answered with status 401.
\<close>

definition get_request :: "string \<Rightarrow> request" where
  "get_request u = \<lparr>url = u, headers = Map.empty, isRetryRequest = False\<rparr>"

definition unauthorized :: "nat \<Rightarrow> request \<Rightarrow> axios_error" where
  "unauthorized i c = \<lparr>err_id = i, config = Some c, status = Some 401\<rparr>"

section \<open>Properties of the token store\<close>

lemma show_nat_nonempty: "show_nat n \<noteq> []"
  by (subst show_nat.simps) simp

lemma js_String_truthy: "truthy v \<Longrightarrow> js_String v \<noteq> []"
  by (cases v) (auto simp: show_nat_nonempty)

lemma get_access_set_access:
  "get_access (set_access v ls) = (if truthy v then Some (js_String v) else None)"
  by (simp add: get_access_def set_access_def getItem_def setItem_def removeItem_def)

lemma get_refresh_set_refresh:
  "get_refresh (set_refresh v ls) = (if truthy v then Some (js_String v) else None)"
  by (simp add: get_refresh_def set_refresh_def getItem_def setItem_def removeItem_def)

lemma get_refresh_set_access: "get_refresh (set_access v ls) = get_refresh ls"
  by (simp add: get_refresh_def set_access_def getItem_def setItem_def removeItem_def)

lemma get_access_set_refresh: "get_access (set_refresh v ls) = get_access ls"
  by (simp add: get_access_def set_refresh_def getItem_def setItem_def removeItem_def)

lemma get_access_clear: "get_access (clear ls) = None"
  by (simp add: clear_def get_access_set_refresh get_access_set_access)

lemma get_refresh_clear: "get_refresh (clear ls) = None"
  by (simp add: clear_def get_refresh_set_refresh)

text \<open>
  C10. Round trip of the token store: a non-empty string written to either token is
  read back; a falsy value removes the key, so the read gives \<^verbatim>\<open>null\<close>; after
  \<^verbatim>\<open>clear()\<close> both reads give \<^verbatim>\<open>null\<close>, whatever the store held.
\<close>

theorem tokenStore_round_trip:
  "(t \<noteq> [] \<longrightarrow> get_access (set_access (JStr t) ls) = Some t
              \<and> get_refresh (set_refresh (JStr t) ls) = Some t)
   \<and> (\<not> truthy v \<longrightarrow> get_access (set_access v ls) = None
              \<and> get_refresh (set_refresh v ls) = None
              \<and> ''access'' \<notin> dom (set_access v ls)
              \<and> ''refresh'' \<notin> dom (set_refresh v ls))
   \<and> get_access (clear ls) = None \<and> get_refresh (clear ls) = None"
proof -
  have removed: "\<not> truthy v \<longrightarrow> ''access'' \<notin> dom (set_access v ls)
      \<and> ''refresh'' \<notin> dom (set_refresh v ls)"
    by (simp add: set_access_def set_refresh_def removeItem_def)
  have reads: "get_access (set_access v ls) = (if truthy v then Some (js_String v) else None)"
    "get_refresh (set_refresh v ls) = (if truthy v then Some (js_String v) else None)"
    by (rule get_access_set_access, rule get_refresh_set_refresh)
  show ?thesis
    using removed reads
    by (simp add: get_access_set_access get_refresh_set_refresh get_access_clear
        get_refresh_clear)
qed

theorem tokenStore_round_trip_witness:
  "''A1'' \<noteq> [] \<and> \<not> truthy (JStr [])
   \<and> get_access (set_access (JStr ''A1'') Map.empty) = Some ''A1''
   \<and> get_refresh (set_refresh (JStr ''A1'') Map.empty) = Some ''A1''
   \<and> get_access (set_access (JStr []) [''access'' \<mapsto> ''A0'']) = None
   \<and> get_refresh (set_refresh (JStr []) [''refresh'' \<mapsto> ''R0'']) = None
   \<and> get_access (clear [''access'' \<mapsto> ''A0'', ''refresh'' \<mapsto> ''R0'']) = None
   \<and> get_refresh (clear [''access'' \<mapsto> ''A0'', ''refresh'' \<mapsto> ''R0'']) = None"
  using tokenStore_round_trip [of "''A1''" "Map.empty" "JStr []"]
    tokenStore_round_trip [of "''A1''" "[''access'' \<mapsto> ''A0'']" "JStr []"]
    tokenStore_round_trip [of "''A1''" "[''refresh'' \<mapsto> ''R0'']" "JStr []"]
    tokenStore_round_trip [of "''A1''" "[''access'' \<mapsto> ''A0'', ''refresh'' \<mapsto> ''R0'']" "JStr []"]
  by simp

section \<open>The handlers, field by field\<close>


lemma settle_fields [simp]:
  "localStorage (settle p out s) = localStorage s"
  "isRefreshing (settle p out s) = isRefreshing s"
  "refreshPromise (settle p out s) = refreshPromise s"
  "subscribers (settle p out s) = subscribers s"
  "network (settle p out s) = network s"
  "refresh_pending (settle p out s) = refresh_pending s"
  "notified (settle p out s) = notified s"
  "next_promise (settle p out s) = next_promise s"
  by (simp_all add: settle_def split: option.split)

lemma settled_settle:
  "settled (settle p out s) q = (if q = p \<and> settled s p = None then Some out else settled s q)"
  by (simp add: settle_def split: option.split)

lemma api_fields [simp]:
  "localStorage (api c s) = localStorage s"
  "isRefreshing (api c s) = isRefreshing s"
  "refreshPromise (api c s) = refreshPromise s"
  "subscribers (api c s) = subscribers s"
  "network (api c s) = network s @ [ApiCall (request_interceptor (localStorage s) c)]"
  "refresh_pending (api c s) = refresh_pending s"
  "settled (api c s) = settled s"
  "notified (api c s) = notified s"
  "next_promise (api c s) = next_promise s"
  by (simp_all add: api_def)

lemma invoke_fields [simp]:
  "localStorage (invoke v cb s) = localStorage s"
  "isRefreshing (invoke v cb s) = isRefreshing s"
  "refreshPromise (invoke v cb s) = refreshPromise s"
  "subscribers (invoke v cb s) = subscribers s"
  "network (invoke v cb s) =
     network s @ [ApiCall (request_interceptor (localStorage s) (bearer (js_String v) (original cb)))]"
  "refresh_pending (invoke v cb s) = refresh_pending s"
  "notified (invoke v cb s) = notified s @ [(promise cb, v)]"
  "next_promise (invoke v cb s) = next_promise s"
  by (simp_all add: invoke_def Let_def)

lemma settled_invoke:
  "settled (invoke v cb s) q =
     (if q = promise cb \<and> settled s q = None
      then Some (Replayed (bearer (js_String v) (original cb))) else settled s q)"
  by (auto simp add: invoke_def Let_def settled_settle)

lemma foldl_invoke_fields [simp]:
  "localStorage (foldl (\<lambda>s' cb. invoke v cb s') s cbs) = localStorage s"
  "isRefreshing (foldl (\<lambda>s' cb. invoke v cb s') s cbs) = isRefreshing s"
  "refreshPromise (foldl (\<lambda>s' cb. invoke v cb s') s cbs) = refreshPromise s"
  "subscribers (foldl (\<lambda>s' cb. invoke v cb s') s cbs) = subscribers s"
  "refresh_pending (foldl (\<lambda>s' cb. invoke v cb s') s cbs) = refresh_pending s"
  "next_promise (foldl (\<lambda>s' cb. invoke v cb s') s cbs) = next_promise s"
  by (induction cbs arbitrary: s; simp)+

lemma foldl_invoke_network:
  "network (foldl (\<lambda>s' cb. invoke v cb s') s cbs) =
     network s @ map (\<lambda>cb. ApiCall (request_interceptor (localStorage s) (bearer (js_String v) (original cb)))) cbs"
  by (induction cbs arbitrary: s) simp_all

lemma foldl_invoke_notified:
  "notified (foldl (\<lambda>s' cb. invoke v cb s') s cbs) = notified s @ map (\<lambda>cb. (promise cb, v)) cbs"
  by (induction cbs arbitrary: s) simp_all

lemma foldl_invoke_settled_keep:
  "settled s q = Some x \<Longrightarrow> settled (foldl (\<lambda>s' cb. invoke v cb s') s cbs) q = Some x"
  by (induction cbs arbitrary: s) (simp_all add: settled_invoke)

lemma foldl_invoke_settled_other:
  "q \<notin> promise ` set cbs \<Longrightarrow> settled (foldl (\<lambda>s' cb. invoke v cb s') s cbs) q = settled s q"
  by (induction cbs arbitrary: s) (simp_all add: settled_invoke)

lemma foldl_invoke_settled_hit:
  "q \<in> promise ` set cbs \<Longrightarrow> settled (foldl (\<lambda>s' cb. invoke v cb s') s cbs) q \<noteq> None"
proof (induction cbs arbitrary: s)
  case Nil
  then show ?case by simp
next
  case (Cons cb cbs)
  show ?case
  proof (cases "q = promise cb")
    case True
    then obtain x where "settled (invoke v cb s) q = Some x"
      by (cases "settled s q") (auto simp: settled_invoke)
    then show ?thesis
      by (simp add: foldl_invoke_settled_keep)
  next
    case False
    with Cons.prems have "q \<in> promise ` set cbs" by auto
    then show ?thesis using Cons.IH by simp
  qed
qed

lemma foldl_settle_fields [simp]:
  "localStorage (foldl (\<lambda>s' p. settle p out s') s ps) = localStorage s"
  "isRefreshing (foldl (\<lambda>s' p. settle p out s') s ps) = isRefreshing s"
  "refreshPromise (foldl (\<lambda>s' p. settle p out s') s ps) = refreshPromise s"
  "subscribers (foldl (\<lambda>s' p. settle p out s') s ps) = subscribers s"
  "network (foldl (\<lambda>s' p. settle p out s') s ps) = network s"
  "refresh_pending (foldl (\<lambda>s' p. settle p out s') s ps) = refresh_pending s"
  "notified (foldl (\<lambda>s' p. settle p out s') s ps) = notified s"
  "next_promise (foldl (\<lambda>s' p. settle p out s') s ps) = next_promise s"
  by (induction ps arbitrary: s; simp)+

lemma foldl_settle_settled:
  "settled (foldl (\<lambda>s' p. settle p out s') s ps) q =
     (if settled s q = None \<and> q \<in> set ps then Some out else settled s q)"
  by (induction ps arbitrary: s) (auto simp: settled_settle)


lemma response_error_propagate:
  "\<not> (status err = Some 401 \<and> \<not> isRetryRequest (config_of err)) \<Longrightarrow>
   response_error err s = (Propagate err, s)"
  by (cases "status err = Some 401") (simp_all add: response_error_def Let_def)

lemma response_error_no_refresh:
  "status err = Some 401 \<Longrightarrow> \<not> isRetryRequest (config_of err) \<Longrightarrow>
   get_refresh (localStorage s) = None \<or> get_refresh (localStorage s) = Some [] \<Longrightarrow>
   response_error err s = (Propagate err, s\<lparr>localStorage := clear (localStorage s)\<rparr>)"
  by (auto simp add: response_error_def Let_def)

lemma response_error_start:
  "status err = Some 401 \<Longrightarrow> \<not> isRetryRequest (config_of err) \<Longrightarrow>
   get_refresh (localStorage s) = Some r \<Longrightarrow> r \<noteq> [] \<Longrightarrow> \<not> isRefreshing s \<Longrightarrow>
   response_error err s =
     (Await (next_promise s),
      s\<lparr>isRefreshing := True,
        refreshPromise := Some [next_promise s],
        subscribers := subscribers s @
          [\<lparr>original = (config_of err)\<lparr>isRetryRequest := True\<rparr>, promise = next_promise s\<rparr>],
        network := network s @ [RefreshCall r],
        refresh_pending := Suc (refresh_pending s),
        next_promise := Suc (next_promise s)\<rparr>)"
  by (simp add: response_error_def Let_def start_refresh_def addSubscriber_def)

lemma response_error_queue:
  "status err = Some 401 \<Longrightarrow> \<not> isRetryRequest (config_of err) \<Longrightarrow>
   get_refresh (localStorage s) = Some r \<Longrightarrow> r \<noteq> [] \<Longrightarrow> isRefreshing s \<Longrightarrow>
   refreshPromise s = Some rs \<Longrightarrow>
   response_error err s =
     (Await (next_promise s),
      s\<lparr>refreshPromise := Some (rs @ [next_promise s]),
        subscribers := subscribers s @
          [\<lparr>original = config_of err, promise = next_promise s\<rparr>],
        next_promise := Suc (next_promise s)\<rparr>)"
  by (simp add: response_error_def Let_def addSubscriber_def)

lemma refresh_settled_success:
  "truthy v \<Longrightarrow>
   refresh_settled (Fulfilled v) s =
     (foldl (\<lambda>s' cb. invoke v cb s')
        (s\<lparr>refresh_pending := refresh_pending s - 1,
           localStorage := set_access v (localStorage s)\<rparr>) (subscribers s))
     \<lparr>subscribers := [], isRefreshing := False, refreshPromise := None\<rparr>"
  by (simp add: refresh_settled_def refresh_then_def onRefreshed_def refresh_finally_def Let_def)

lemma refresh_settled_failure:
  "res = Failed e \<or> (res = Fulfilled v \<and> \<not> truthy v \<and> e = PlainError ''No access token in refresh response'') \<Longrightarrow>
   refresh_settled res s =
     foldl (\<lambda>s' p. settle p (Rejected e) s')
       (s\<lparr>refresh_pending := refresh_pending s - 1,
          localStorage := clear (localStorage s),
          isRefreshing := False, refreshPromise := None\<rparr>) (waiting s)"
  by (auto simp add: refresh_settled_def refresh_then_def refresh_catch_def refresh_finally_def Let_def)


lemma pipeline_inv_init: "pipeline_inv (init ls)"
  by (simp add: pipeline_inv_def init_def waiting_def)

lemma pipeline_inv_storage [simp]:
  "pipeline_inv (s\<lparr>localStorage := ls\<rparr>) = pipeline_inv s"
  by (simp add: pipeline_inv_def waiting_def)

lemma pipeline_inv_api: "pipeline_inv s \<Longrightarrow> pipeline_inv (api c s)"
  by (simp add: pipeline_inv_def waiting_def)

lemma pipeline_inv_start:
  assumes "pipeline_inv s" "\<not> isRefreshing s"
  shows "pipeline_inv
     (s\<lparr>isRefreshing := True,
        refreshPromise := Some [next_promise s],
        subscribers := subscribers s @ [\<lparr>original = c, promise = next_promise s\<rparr>],
        network := nw,
        refresh_pending := Suc (refresh_pending s),
        next_promise := Suc (next_promise s)\<rparr>)"
proof -
  from assms have idle: "refreshPromise s = None" "refresh_pending s = 0"
    by (auto simp: pipeline_inv_def)
  from assms have bound: "\<And>p. settled s p \<noteq> None \<Longrightarrow> p < next_promise s"
    by (simp add: pipeline_inv_def)
  have fresh: "settled s (next_promise s) = None"
    using bound [of "next_promise s"] by (cases "settled s (next_promise s)") auto
  from assms idle have old: "\<And>cb. cb \<in> set (subscribers s) \<Longrightarrow> promise cb < next_promise s"
    and gone: "\<And>cb. cb \<in> set (subscribers s) \<Longrightarrow> settled s (promise cb) = None \<Longrightarrow> False"
    by (auto simp: pipeline_inv_def waiting_def)
  show ?thesis
    using idle fresh bound
    by (auto simp: pipeline_inv_def waiting_def less_Suc_eq dest: old gone)
qed

lemma pipeline_inv_queue:
  assumes "pipeline_inv s" "refreshPromise s = Some rs"
  shows "pipeline_inv
     (s\<lparr>refreshPromise := Some (rs @ [next_promise s]),
        subscribers := subscribers s @ [\<lparr>original = c, promise = next_promise s\<rparr>],
        next_promise := Suc (next_promise s)\<rparr>)"
proof -
  from assms have bound: "\<And>p. settled s p \<noteq> None \<Longrightarrow> p < next_promise s"
    by (simp add: pipeline_inv_def)
  have fresh: "settled s (next_promise s) = None"
    using bound [of "next_promise s"] by (cases "settled s (next_promise s)") auto
  from assms have wait: "\<And>p. p \<in> set rs \<Longrightarrow> p < next_promise s \<and> settled s p = None"
    by (simp add: pipeline_inv_def waiting_def)
  from assms have old: "\<And>cb. cb \<in> set (subscribers s) \<Longrightarrow>
      promise cb < next_promise s \<and> (settled s (promise cb) = None \<longrightarrow> promise cb \<in> set rs)"
    by (simp add: pipeline_inv_def waiting_def)
  from assms have flag: "isRefreshing s" "refresh_pending s = 1"
    by (auto simp: pipeline_inv_def)
  show ?thesis
    using flag fresh wait old bound
    by (auto simp: pipeline_inv_def waiting_def less_Suc_eq)
qed

lemma pipeline_inv_response_error:
  assumes "pipeline_inv s"
  shows "pipeline_inv (snd (response_error err s))"
proof (cases "status err = Some 401 \<and> \<not> isRetryRequest (config_of err)")
  case False
  then show ?thesis using assms by (simp add: response_error_propagate)
next
  case recover: True
  show ?thesis
  proof (cases "get_refresh (localStorage s)")
    case None
    then show ?thesis using assms recover by (simp add: response_error_no_refresh)
  next
    case (Some r)
    show ?thesis
    proof (cases "r = []")
      case True
      then show ?thesis using assms recover Some by (simp add: response_error_no_refresh)
    next
      case token: False
      show ?thesis
      proof (cases "isRefreshing s")
        case False
        then show ?thesis
          using assms recover Some token
          by (simp add: response_error_start pipeline_inv_start)
      next
        case True
        with assms obtain rs where "refreshPromise s = Some rs"
          by (auto simp: pipeline_inv_def)
        then show ?thesis
          using assms recover Some token True
          by (simp add: response_error_queue pipeline_inv_queue)
      qed
    qed
  qed
qed

lemma pipeline_inv_refresh_settled:
  assumes "pipeline_inv s" "refresh_pending s \<noteq> 0"
  shows "pipeline_inv (refresh_settled res s)"
proof -
  from assms have flag: "isRefreshing s" "refresh_pending s = 1"
    by (auto simp: pipeline_inv_def split: if_splits)
  from assms have bound: "\<And>p. settled s p \<noteq> None \<Longrightarrow> p < next_promise s"
    by (simp add: pipeline_inv_def)
  from assms have wait: "\<And>p. p \<in> set (waiting s) \<Longrightarrow> p < next_promise s \<and> settled s p = None"
    by (simp add: pipeline_inv_def)
  from assms have subs: "\<And>cb. cb \<in> set (subscribers s) \<Longrightarrow>
      promise cb < next_promise s \<and> (settled s (promise cb) = None \<longrightarrow> promise cb \<in> set (waiting s))"
    by (simp add: pipeline_inv_def)
  consider (ok) v where "res = Fulfilled v" "truthy v"
    | (bad) e v where "res = Failed e \<or> (res = Fulfilled v \<and> \<not> truthy v
          \<and> e = PlainError ''No access token in refresh response'')"
    by (cases res) auto
  then show ?thesis
  proof cases
    case ok
    let ?s0 = "s\<lparr>refresh_pending := refresh_pending s - 1,
                  localStorage := set_access v (localStorage s)\<rparr>"
    have "p < next_promise s"
      if "settled (foldl (\<lambda>s' cb. invoke v cb s') ?s0 (subscribers s)) p \<noteq> None" for p
    proof (cases "p \<in> promise ` set (subscribers s)")
      case True
      then show ?thesis using subs by auto
    next
      case False
      then show ?thesis using that bound by (simp add: foldl_invoke_settled_other)
    qed
    then show ?thesis
      using flag ok by (simp add: refresh_settled_success pipeline_inv_def waiting_def)
  next
    case bad
    define s1 where "s1 = foldl (\<lambda>s' p. settle p (Rejected e) s')
        (s\<lparr>refresh_pending := refresh_pending s - 1,
           localStorage := clear (localStorage s),
           isRefreshing := False, refreshPromise := None\<rparr>) (waiting s)"
    have eq: "refresh_settled res s = s1"
      unfolding s1_def by (rule refresh_settled_failure [OF bad])
    have st: "settled s1 q =
        (if settled s q = None \<and> q \<in> set (waiting s) then Some (Rejected e) else settled s q)" for q
      unfolding s1_def by (simp add: foldl_settle_settled)
    have a: "refresh_pending s1 = 0" "\<not> isRefreshing s1" "refreshPromise s1 = None"
      "waiting s1 = []" "subscribers s1 = subscribers s" "next_promise s1 = next_promise s"
      unfolding s1_def using flag by (simp_all add: waiting_def)
    have b: "p < next_promise s" if "settled s1 p \<noteq> None" for p
      using that bound [of p] wait [of p] by (auto simp: st split: if_splits)
    have c: "promise cb < next_promise s \<and> settled s1 (promise cb) \<noteq> None"
      if "cb \<in> set (subscribers s)" for cb
      using subs [OF that] by (auto simp: st)
    show ?thesis
      unfolding eq pipeline_inv_def using a b c by auto
  qed
qed

lemma pipeline_inv_step: "pipeline_inv s \<Longrightarrow> pipeline_inv (step ev s)"
  by (cases ev)
    (simp_all add: step_def pipeline_inv_api pipeline_inv_response_error
      pipeline_inv_refresh_settled)

lemma pipeline_inv_run: "pipeline_inv s \<Longrightarrow> pipeline_inv (run s evs)"
  unfolding run_def by (induction evs arbitrary: s) (simp_all add: pipeline_inv_step)

lemma pipeline_inv_reachable: "pipeline_inv (run (init ls) evs)"
  by (simp add: pipeline_inv_run pipeline_inv_init)


lemmas eval_defs = run_def step_def init_def response_error_def start_refresh_def
  addSubscriber_def refresh_settled_def refresh_then_def refresh_catch_def refresh_finally_def
  onRefreshed_def invoke_def settle_def api_def request_interceptor_def bearer_def waiting_def
  config_of_def empty_config_def get_access_def set_access_def get_refresh_def set_refresh_def
  clear_def getItem_def setItem_def removeItem_def Let_def get_request_def unauthorized_def

lemma bearer_idem: "bearer t (bearer t c) = bearer t c"
  by (simp add: bearer_def)

lemma bearer_header: "headers (bearer t c) ''Authorization'' = Some (''Bearer '' @ t)"
  by (simp add: bearer_def)

lemma request_interceptor_after_set:
  "truthy v \<Longrightarrow>
   request_interceptor (set_access v ls) (bearer (js_String v) c) = bearer (js_String v) c"
  by (simp add: request_interceptor_def get_access_set_access js_String_truthy bearer_idem)

lemma refresh_success_network:
  "truthy v \<Longrightarrow>
   network (refresh_settled (Fulfilled v) s) =
     network s @ map (\<lambda>cb. ApiCall (bearer (js_String v) (original cb))) (subscribers s)"
  by (simp add: refresh_settled_success foldl_invoke_network request_interceptor_after_set)

lemma refresh_success_storage:
  "truthy v \<Longrightarrow>
   localStorage (refresh_settled (Fulfilled v) s) = set_access v (localStorage s)"
  by (simp add: refresh_settled_success)

lemma refresh_success_notified:
  "truthy v \<Longrightarrow>
   notified (refresh_settled (Fulfilled v) s) =
     notified s @ map (\<lambda>cb. (promise cb, v)) (subscribers s)"
  by (simp add: refresh_settled_success foldl_invoke_notified)

lemma response_error_in_flight:
  assumes "status err = Some 401" "\<not> isRetryRequest (config_of err)"
    "get_refresh (localStorage s) = Some r" "r \<noteq> []" "isRefreshing s"
  shows "network (snd (response_error err s)) = network s"
    "refresh_pending (snd (response_error err s)) = refresh_pending s"
    "subscribers (snd (response_error err s)) =
       subscribers s @ [\<lparr>original = config_of err, promise = next_promise s\<rparr>]"
    "isRefreshing (snd (response_error err s))"
    "localStorage (snd (response_error err s)) = localStorage s"
  using assms
  by (simp_all add: response_error_def Let_def addSubscriber_def split: option.split)

lemma response_error_network_in_flight:
  "isRefreshing s \<Longrightarrow> network (snd (response_error err s)) = network s"
  by (simp add: response_error_def Let_def addSubscriber_def split: option.split)

lemma run_Cons: "run s (ev # evs) = run (step ev s) evs"
  by (simp add: run_def)

lemma run_Nil: "run s [] = s"
  by (simp add: run_def)

lemma run_in_flight:
  assumes "isRefreshing s" "get_refresh (localStorage s) = Some r" "r \<noteq> []"
    "\<forall>x \<in> set es. status x = Some 401 \<and> \<not> isRetryRequest (config_of x)"
  shows "network (run s (map ResponseError es)) = network s
    \<and> refresh_pending (run s (map ResponseError es)) = refresh_pending s
    \<and> map original (subscribers (run s (map ResponseError es))) =
        map original (subscribers s) @ map config_of es"
  using assms
proof (induction es arbitrary: s)
  case Nil
  then show ?case by (simp add: run_Nil)
next
  case (Cons e es)
  let ?s = "step (ResponseError e) s"
  have e: "status e = Some 401" "\<not> isRetryRequest (config_of e)"
    using Cons.prems(4) by auto
  have step: "network ?s = network s" "refresh_pending ?s = refresh_pending s"
    "subscribers ?s = subscribers s @ [\<lparr>original = config_of e, promise = next_promise s\<rparr>]"
    "isRefreshing ?s" "localStorage ?s = localStorage s"
    using response_error_in_flight [OF e Cons.prems(2,3,1)] by (simp_all add: step_def)
  have "network (run ?s (map ResponseError es)) = network ?s
    \<and> refresh_pending (run ?s (map ResponseError es)) = refresh_pending ?s
    \<and> map original (subscribers (run ?s (map ResponseError es))) =
        map original (subscribers ?s) @ map config_of es"
    using Cons.prems step by (intro Cons.IH) simp_all
  then show ?case
    by (simp add: run_Cons step)
qed

section \<open>Single flight\<close>

text \<open>
  C1, as the code has it. In every execution at most one refresh call is unanswered at any
  time. When no refresh call is in flight and the store holds a refresh token, a batch of
  one or more 401 answers to requests not yet marked as retried issues exactly one refresh
  call, and all of them are queued, the first one marked as retried. While a refresh call
  is in flight, a 401 answer to a request not yet marked as retried is appended to the
  queue, with the store holding a refresh token; and no error answer of any kind issues a
  call while one is in flight.
\<close>

theorem single_flight:
  assumes "s = run (init ls) evs"
  shows "refresh_pending s \<le> 1
    \<and> (refresh_pending s = 0 \<and> get_refresh (localStorage s) = Some r \<and> r \<noteq> []
         \<and> (\<forall>x \<in> set (e # es). status x = Some 401 \<and> \<not> isRetryRequest (config_of x))
       \<longrightarrow> network (run s (map ResponseError (e # es))) = network s @ [RefreshCall r]
          \<and> refresh_pending (run s (map ResponseError (e # es))) = 1
          \<and> map original (subscribers (run s (map ResponseError (e # es)))) =
              map original (subscribers s) @
                (config_of e)\<lparr>isRetryRequest := True\<rparr> # map config_of es)
    \<and> (refresh_pending s = 1 \<and> get_refresh (localStorage s) = Some r \<and> r \<noteq> []
         \<and> status e = Some 401 \<and> \<not> isRetryRequest (config_of e)
       \<longrightarrow> network (step (ResponseError e) s) = network s
          \<and> refresh_pending (step (ResponseError e) s) = 1
          \<and> subscribers (step (ResponseError e) s) =
              subscribers s @ [\<lparr>original = config_of e, promise = next_promise s\<rparr>])
    \<and> (refresh_pending s = 1 \<longrightarrow> network (step (ResponseError e) s) = network s)"
proof -
  have inv: "pipeline_inv s"
    unfolding assms by (rule pipeline_inv_reachable)
  then have pending: "refresh_pending s = (if isRefreshing s then 1 else 0)"
    by (simp add: pipeline_inv_def)
  have one: "refresh_pending s \<le> 1"
    using pending by simp
  have idle: "network (run s (map ResponseError (e # es))) = network s @ [RefreshCall r]
          \<and> refresh_pending (run s (map ResponseError (e # es))) = 1
          \<and> map original (subscribers (run s (map ResponseError (e # es)))) =
              map original (subscribers s) @
                (config_of e)\<lparr>isRetryRequest := True\<rparr> # map config_of es"
    if "refresh_pending s = 0" "get_refresh (localStorage s) = Some r" "r \<noteq> []"
      "\<forall>x \<in> set (e # es). status x = Some 401 \<and> \<not> isRetryRequest (config_of x)"
  proof -
    let ?s = "step (ResponseError e) s"
    have off: "\<not> isRefreshing s"
      using pending that(1) by (simp split: if_splits)
    have e: "status e = Some 401" "\<not> isRetryRequest (config_of e)"
      using that(4) by auto
    have first: "network ?s = network s @ [RefreshCall r]" "refresh_pending ?s = 1"
      "subscribers ?s = subscribers s @
         [\<lparr>original = (config_of e)\<lparr>isRetryRequest := True\<rparr>, promise = next_promise s\<rparr>]"
      "isRefreshing ?s" "localStorage ?s = localStorage s"
      using that(1) by (simp_all add: step_def response_error_start [OF e that(2,3) off])
    have "network (run ?s (map ResponseError es)) = network ?s
      \<and> refresh_pending (run ?s (map ResponseError es)) = refresh_pending ?s
      \<and> map original (subscribers (run ?s (map ResponseError es))) =
          map original (subscribers ?s) @ map config_of es"
      using that first by (intro run_in_flight [of _ r]) simp_all
    then show ?thesis
      by (simp add: run_Cons first)
  qed
  have busy: "network (step (ResponseError e) s) = network s
          \<and> refresh_pending (step (ResponseError e) s) = 1
          \<and> subscribers (step (ResponseError e) s) =
              subscribers s @ [\<lparr>original = config_of e, promise = next_promise s\<rparr>]"
    if "refresh_pending s = 1" "get_refresh (localStorage s) = Some r" "r \<noteq> []"
      "status e = Some 401" "\<not> isRetryRequest (config_of e)"
  proof -
    have on: "isRefreshing s"
      by (rule ccontr) (use pending that(1) in auto)
    note f = response_error_in_flight [OF that(4,5,2,3) on]
    show ?thesis
      by (simp add: step_def f that(1))
  qed
  have quiet: "network (step (ResponseError e) s) = network s" if "refresh_pending s = 1"
  proof -
    have on: "isRefreshing s"
      by (rule ccontr) (use pending that in auto)
    then show ?thesis
      by (simp add: step_def response_error_network_in_flight)
  qed
  have idle': "refresh_pending s = 0 \<and> get_refresh (localStorage s) = Some r \<and> r \<noteq> []
         \<and> (\<forall>x \<in> set (e # es). status x = Some 401 \<and> \<not> isRetryRequest (config_of x))
       \<longrightarrow> network (run s (map ResponseError (e # es))) = network s @ [RefreshCall r]
          \<and> refresh_pending (run s (map ResponseError (e # es))) = 1
          \<and> map original (subscribers (run s (map ResponseError (e # es)))) =
              map original (subscribers s) @
                (config_of e)\<lparr>isRetryRequest := True\<rparr> # map config_of es"
  proof (intro impI, elim conjE)
    assume "refresh_pending s = 0" "get_refresh (localStorage s) = Some r" "r \<noteq> []"
      "\<forall>x \<in> set (e # es). status x = Some 401 \<and> \<not> isRetryRequest (config_of x)"
    then show "network (run s (map ResponseError (e # es))) = network s @ [RefreshCall r]
          \<and> refresh_pending (run s (map ResponseError (e # es))) = 1
          \<and> map original (subscribers (run s (map ResponseError (e # es)))) =
              map original (subscribers s) @
                (config_of e)\<lparr>isRetryRequest := True\<rparr> # map config_of es"
      by (rule idle)
  qed
  have busy': "refresh_pending s = 1 \<and> get_refresh (localStorage s) = Some r \<and> r \<noteq> []
         \<and> status e = Some 401 \<and> \<not> isRetryRequest (config_of e)
       \<longrightarrow> network (step (ResponseError e) s) = network s
          \<and> refresh_pending (step (ResponseError e) s) = 1
          \<and> subscribers (step (ResponseError e) s) =
              subscribers s @ [\<lparr>original = config_of e, promise = next_promise s\<rparr>]"
  proof (intro impI, elim conjE)
    assume "refresh_pending s = 1" "get_refresh (localStorage s) = Some r" "r \<noteq> []"
      "status e = Some 401" "\<not> isRetryRequest (config_of e)"
    then show "network (step (ResponseError e) s) = network s
          \<and> refresh_pending (step (ResponseError e) s) = 1
          \<and> subscribers (step (ResponseError e) s) =
              subscribers s @ [\<lparr>original = config_of e, promise = next_promise s\<rparr>]"
      by (rule busy)
  qed
  have quiet': "refresh_pending s = 1 \<longrightarrow> network (step (ResponseError e) s) = network s"
    using quiet by (rule impI)
  show ?thesis
    by (intro conjI one idle' busy' quiet')
qed


text \<open>
  The three parallel calls of the spec's scenario, after a login that stored A1 and R1.
\<close>

theorem single_flight_witness:
  "refresh_pending (run (init Map.empty) [Login (JStr ''A1'') (JStr ''R1'')]) = 0
   \<and> get_refresh (localStorage (run (init Map.empty) [Login (JStr ''A1'') (JStr ''R1'')])) = Some ''R1''
   \<and> network (run (run (init Map.empty) [Login (JStr ''A1'') (JStr ''R1'')])
        (map ResponseError [unauthorized 1 (get_request ''/a''), unauthorized 2 (get_request ''/b''),
           unauthorized 3 (get_request ''/c'')])) = [RefreshCall ''R1'']
   \<and> map original (subscribers (run (run (init Map.empty) [Login (JStr ''A1'') (JStr ''R1'')])
        (map ResponseError [unauthorized 1 (get_request ''/a''), unauthorized 2 (get_request ''/b''),
           unauthorized 3 (get_request ''/c'')]))) =
       [(get_request ''/a'')\<lparr>isRetryRequest := True\<rparr>, get_request ''/b'', get_request ''/c'']
   \<and> refresh_pending (run (run (init Map.empty) [Login (JStr ''A1'') (JStr ''R1'')])
        (map ResponseError [unauthorized 1 (get_request ''/a''), unauthorized 2 (get_request ''/b''),
           unauthorized 3 (get_request ''/c'')])) \<le> 1"
  using single_flight [of "run (init Map.empty) [Login (JStr ''A1'') (JStr ''R1'')]" Map.empty
      "[Login (JStr ''A1'') (JStr ''R1'')]" "''R1''" "unauthorized 1 (get_request ''/a'')"
      "[unauthorized 2 (get_request ''/b''), unauthorized 3 (get_request ''/c'')]", OF refl]
    single_flight [of "run (run (init Map.empty) [Login (JStr ''A1'') (JStr ''R1'')])
        (map ResponseError [unauthorized 1 (get_request ''/a''), unauthorized 2 (get_request ''/b''),
           unauthorized 3 (get_request ''/c'')])" Map.empty
      "[Login (JStr ''A1'') (JStr ''R1''), ResponseError (unauthorized 1 (get_request ''/a'')),
        ResponseError (unauthorized 2 (get_request ''/b'')), ResponseError (unauthorized 3 (get_request ''/c''))]"]
  by (simp add: eval_defs)

text \<open>
  C1 as stated fails on two inputs. The request that started the first refresh is replayed
  with the flag \<^verbatim>\<open>__isRetryRequest\<close>; its 401 arrives while a second refresh is in
  flight and it is not appended to the queue, which holds the second request alone. And a
  401 with an empty store issues no refresh call at all.
\<close>

theorem single_flight_counterexample:
  "refresh_pending (run (init Map.empty)
      [Login (JStr ''A1'') (JStr ''R1''),
       ResponseError (unauthorized 1 (get_request ''/a'')),
       RefreshSettled (Fulfilled (JStr ''A2'')),
       ResponseError (unauthorized 2 (get_request ''/b''))]) = 1
   \<and> ApiCall (bearer ''A2'' ((get_request ''/a'')\<lparr>isRetryRequest := True\<rparr>))
       \<in> set (network (run (init Map.empty)
      [Login (JStr ''A1'') (JStr ''R1''),
       ResponseError (unauthorized 1 (get_request ''/a'')),
       RefreshSettled (Fulfilled (JStr ''A2'')),
       ResponseError (unauthorized 2 (get_request ''/b''))]))
   \<and> map original (subscribers (run (init Map.empty)
      [Login (JStr ''A1'') (JStr ''R1''),
       ResponseError (unauthorized 1 (get_request ''/a'')),
       RefreshSettled (Fulfilled (JStr ''A2'')),
       ResponseError (unauthorized 2 (get_request ''/b'')),
       ResponseError (unauthorized 3 (bearer ''A2'' ((get_request ''/a'')\<lparr>isRetryRequest := True\<rparr>)))]))
       = [(get_request ''/b'')\<lparr>isRetryRequest := True\<rparr>]
   \<and> network (run (init Map.empty) [ResponseError (unauthorized 1 (get_request ''/a''))]) = []"
  by (simp add: eval_defs)

section \<open>Replay after a successful refresh\<close>

text \<open>
  C4. When the refresh call is answered with an access token (a truthy value), the calls
  issued are exactly one replay per queue entry, in queue order, each carrying the header
  Authorization: Bearer followed by the new token and nothing of the old header, to the
  same URL; the queue is then empty, so no entry is replayed a second time.
\<close>

theorem replay_with_new_token:
  assumes "truthy v"
  shows "network (refresh_settled (Fulfilled v) s) =
           network s @ map (\<lambda>cb. ApiCall (bearer (js_String v) (original cb))) (subscribers s)
    \<and> (\<forall>cb \<in> set (subscribers s).
          headers (bearer (js_String v) (original cb)) ''Authorization''
            = Some (''Bearer '' @ js_String v)
          \<and> url (bearer (js_String v) (original cb)) = url (original cb))
    \<and> subscribers (refresh_settled (Fulfilled v) s) = []"
proof -
  have n: "network (refresh_settled (Fulfilled v) s) =
           network s @ map (\<lambda>cb. ApiCall (bearer (js_String v) (original cb))) (subscribers s)"
    by (rule refresh_success_network [OF assms])
  have h: "\<forall>cb \<in> set (subscribers s).
          headers (bearer (js_String v) (original cb)) ''Authorization''
            = Some (''Bearer '' @ js_String v)
          \<and> url (bearer (js_String v) (original cb)) = url (original cb)"
    by (simp add: bearer_def)
  have q: "subscribers (refresh_settled (Fulfilled v) s) = []"
    by (simp add: refresh_settled_success [OF assms])
  show ?thesis
    by (intro conjI n h q)
qed

theorem replay_with_new_token_witness:
  "truthy (JStr ''A2'')
   \<and> network (refresh_settled (Fulfilled (JStr ''A2''))
        (run (init Map.empty)
          [Login (JStr ''A1'') (JStr ''R1''),
           Call (get_request ''/a''), Call (get_request ''/b''),
           ResponseError (unauthorized 1 (bearer ''A1'' (get_request ''/a''))),
           ResponseError (unauthorized 2 (bearer ''A1'' (get_request ''/b'')))])) =
      [ApiCall (bearer ''A1'' (get_request ''/a'')), ApiCall (bearer ''A1'' (get_request ''/b'')),
       RefreshCall ''R1'',
       ApiCall (bearer ''A2'' ((get_request ''/a'')\<lparr>isRetryRequest := True\<rparr>)),
       ApiCall (bearer ''A2'' (get_request ''/b''))]"
  using replay_with_new_token [of "JStr ''A2''" "run (init Map.empty)
          [Login (JStr ''A1'') (JStr ''R1''),
           Call (get_request ''/a''), Call (get_request ''/b''),
           ResponseError (unauthorized 1 (bearer ''A1'' (get_request ''/a''))),
           ResponseError (unauthorized 2 (bearer ''A1'' (get_request ''/b'')))]"]
  by (simp add: eval_defs)

text \<open>
  C6. A successful refresh writes the access token only: from a store holding A1 and R1, the
  answer A2 leaves a store holding A2 and R1, every other key of the storage is untouched,
  and every call issued by the replay carries Authorization: Bearer A2.
\<close>

theorem refresh_success_frame:
  assumes "get_access (localStorage s) = Some A1" "get_refresh (localStorage s) = Some R1"
    "A2 \<noteq> []"
  shows "get_access (localStorage (refresh_settled (Fulfilled (JStr A2)) s)) = Some A2
    \<and> get_refresh (localStorage (refresh_settled (Fulfilled (JStr A2)) s)) = Some R1
    \<and> (\<forall>k. k \<noteq> ''access'' \<longrightarrow>
          localStorage (refresh_settled (Fulfilled (JStr A2)) s) k = localStorage s k)
    \<and> (\<forall>call \<in> set (drop (length (network s)) (network (refresh_settled (Fulfilled (JStr A2)) s))).
          \<exists>c. call = ApiCall c \<and> headers c ''Authorization'' = Some (''Bearer '' @ A2))"
proof -
  have t: "truthy (JStr A2)"
    using assms(3) by simp
  have store: "localStorage (refresh_settled (Fulfilled (JStr A2)) s) = set_access (JStr A2) (localStorage s)"
    by (rule refresh_success_storage [OF t])
  have a: "get_access (localStorage (refresh_settled (Fulfilled (JStr A2)) s)) = Some A2"
    using t by (simp add: store get_access_set_access)
  have r: "get_refresh (localStorage (refresh_settled (Fulfilled (JStr A2)) s)) = Some R1"
    using assms(2) by (simp add: store get_refresh_set_access)
  have f: "\<forall>k. k \<noteq> ''access'' \<longrightarrow>
          localStorage (refresh_settled (Fulfilled (JStr A2)) s) k = localStorage s k"
    using t by (simp add: store set_access_def setItem_def)
  have n: "\<forall>call \<in> set (drop (length (network s)) (network (refresh_settled (Fulfilled (JStr A2)) s))).
          \<exists>c. call = ApiCall c \<and> headers c ''Authorization'' = Some (''Bearer '' @ A2)"
    using bearer_header [of A2] by (auto simp add: refresh_success_network [OF t])
  show ?thesis
    by (intro conjI a r f n)
qed

text \<open>The spec's scenario: three parallel calls fail with 401, the refresh returns A2.\<close>

theorem refresh_success_frame_witness:
  "get_access (localStorage (run (init Map.empty)
          [Login (JStr ''A1'') (JStr ''R1''),
           ResponseError (unauthorized 1 (bearer ''A1'' (get_request ''/a''))),
           ResponseError (unauthorized 2 (bearer ''A1'' (get_request ''/b''))),
           ResponseError (unauthorized 3 (bearer ''A1'' (get_request ''/c'')))])) = Some ''A1''
   \<and> get_refresh (localStorage (run (init Map.empty)
          [Login (JStr ''A1'') (JStr ''R1''),
           ResponseError (unauthorized 1 (bearer ''A1'' (get_request ''/a''))),
           ResponseError (unauthorized 2 (bearer ''A1'' (get_request ''/b''))),
           ResponseError (unauthorized 3 (bearer ''A1'' (get_request ''/c'')))])) = Some ''R1''
   \<and> ''A2'' \<noteq> []
   \<and> get_access (localStorage (refresh_settled (Fulfilled (JStr ''A2'')) (run (init Map.empty)
          [Login (JStr ''A1'') (JStr ''R1''),
           ResponseError (unauthorized 1 (bearer ''A1'' (get_request ''/a''))),
           ResponseError (unauthorized 2 (bearer ''A1'' (get_request ''/b''))),
           ResponseError (unauthorized 3 (bearer ''A1'' (get_request ''/c'')))]))) = Some ''A2''
   \<and> get_refresh (localStorage (refresh_settled (Fulfilled (JStr ''A2'')) (run (init Map.empty)
          [Login (JStr ''A1'') (JStr ''R1''),
           ResponseError (unauthorized 1 (bearer ''A1'' (get_request ''/a''))),
           ResponseError (unauthorized 2 (bearer ''A1'' (get_request ''/b''))),
           ResponseError (unauthorized 3 (bearer ''A1'' (get_request ''/c'')))]))) = Some ''R1''
   \<and> network (refresh_settled (Fulfilled (JStr ''A2'')) (run (init Map.empty)
          [Login (JStr ''A1'') (JStr ''R1''),
           ResponseError (unauthorized 1 (bearer ''A1'' (get_request ''/a''))),
           ResponseError (unauthorized 2 (bearer ''A1'' (get_request ''/b''))),
           ResponseError (unauthorized 3 (bearer ''A1'' (get_request ''/c'')))])) =
      [RefreshCall ''R1'',
       ApiCall (bearer ''A2'' ((get_request ''/a'')\<lparr>isRetryRequest := True\<rparr>)),
       ApiCall (bearer ''A2'' (get_request ''/b'')),
       ApiCall (bearer ''A2'' (get_request ''/c''))]"
  using refresh_success_frame [of "run (init Map.empty)
          [Login (JStr ''A1'') (JStr ''R1''),
           ResponseError (unauthorized 1 (bearer ''A1'' (get_request ''/a''))),
           ResponseError (unauthorized 2 (bearer ''A1'' (get_request ''/b''))),
           ResponseError (unauthorized 3 (bearer ''A1'' (get_request ''/c'')))]" "''A1''" "''R1''" "''A2''"]
  by (simp add: eval_defs)

section \<open>The request interceptor\<close>

text \<open>
  C7. A call through \<^verbatim>\<open>api\<close> goes out with the header Authorization: Bearer t when
  the store holds the access token t, and with its config unchanged (no Authorization
  header added) when the store holds none.
\<close>

theorem request_interceptor_attaches:
  "(get_access (localStorage s) = Some t \<and> t \<noteq> [] \<longrightarrow>
      request_interceptor (localStorage s) c = bearer t c
      \<and> headers (request_interceptor (localStorage s) c) ''Authorization'' = Some (''Bearer '' @ t)
      \<and> network (api c s) = network s @ [ApiCall (bearer t c)])
   \<and> (get_access (localStorage s) = None \<longrightarrow>
      request_interceptor (localStorage s) c = c
      \<and> network (api c s) = network s @ [ApiCall c])"
  by (simp add: request_interceptor_def bearer_header)

theorem request_interceptor_attaches_witness:
  "get_access (localStorage (run (init Map.empty) [Login (JStr ''A1'') (JStr ''R1'')])) = Some ''A1''
   \<and> ''A1'' \<noteq> []
   \<and> headers (request_interceptor (localStorage (run (init Map.empty) [Login (JStr ''A1'') (JStr ''R1'')]))
        (get_request ''/a'')) ''Authorization'' = Some ''Bearer A1''
   \<and> get_access (localStorage (init Map.empty)) = None
   \<and> network (api (get_request ''/a'') (init Map.empty)) = [ApiCall (get_request ''/a'')]
   \<and> headers (get_request ''/a'') ''Authorization'' = None"
  using request_interceptor_attaches [of "run (init Map.empty) [Login (JStr ''A1'') (JStr ''R1'')]"
      "''A1''" "get_request ''/a''"]
    request_interceptor_attaches [of "init Map.empty" "''A1''" "get_request ''/a''"]
  by (simp add: eval_defs)

section \<open>Order of notification\<close>

text \<open>
  The promises of the queued subscribers are pairwise different in every reachable state,
  so each pending caller is resolved by its own subscriber.
\<close>

lemma foldl_invoke_settled_own:
  "distinct (map promise cbs) \<Longrightarrow> cb \<in> set cbs \<Longrightarrow> settled s (promise cb) = None \<Longrightarrow>
   settled (foldl (\<lambda>s' c. invoke v c s') s cbs) (promise cb)
     = Some (Replayed (bearer (js_String v) (original cb)))"
proof (induction cbs arbitrary: s)
  case Nil
  then show ?case by simp
next
  case (Cons c cbs)
  show ?case
  proof (cases "cb = c")
    case True
    with Cons.prems(3) have "settled (invoke v c s) (promise cb)
        = Some (Replayed (bearer (js_String v) (original cb)))"
      by (simp add: settled_invoke)
    then show ?thesis
      by (simp add: foldl_invoke_settled_keep)
  next
    case False
    with Cons.prems(2) have mem: "cb \<in> set cbs" by simp
    have "promise cb \<in> promise ` set cbs"
      using mem by (rule imageI)
    moreover have "promise c \<notin> promise ` set cbs"
      using Cons.prems(1) by simp
    ultimately have "promise cb \<noteq> promise c"
      by (rule_tac notI) simp
    with Cons.prems(3) have "settled (invoke v c s) (promise cb) = None"
      by (simp add: settled_invoke)
    with Cons.prems(1) mem show ?thesis
      using Cons.IH [of "invoke v c s"] by simp
  qed
qed

lemma subscribers_step_cases:
  assumes "pipeline_inv s"
  shows "subscribers (step ev s) = subscribers s \<or> subscribers (step ev s) = []
    \<or> (\<exists>c. subscribers (step ev s) = subscribers s @ [\<lparr>original = c, promise = next_promise s\<rparr>])"
proof (cases ev)
  case (Call c)
  then show ?thesis by (simp add: step_def)
next
  case (ResponseError err)
  show ?thesis
  proof (cases "status err = Some 401 \<and> \<not> isRetryRequest (config_of err)")
    case False
    then show ?thesis using ResponseError by (simp add: step_def response_error_propagate)
  next
    case recover: True
    show ?thesis
    proof (cases "get_refresh (localStorage s)")
      case None
      then show ?thesis using ResponseError recover
        by (simp add: step_def response_error_no_refresh)
    next
      case (Some r)
      show ?thesis
      proof (cases "r = []")
        case True
        then show ?thesis using ResponseError recover Some
          by (simp add: step_def response_error_no_refresh)
      next
        case token: False
        show ?thesis
        proof (cases "isRefreshing s")
          case False
          then show ?thesis
            using ResponseError recover Some token
            by (simp add: step_def response_error_start)
        next
          case True
          with assms obtain rs where "refreshPromise s = Some rs"
            by (auto simp: pipeline_inv_def)
          then show ?thesis
            using ResponseError recover Some token True
            by (simp add: step_def response_error_queue)
        qed
      qed
    qed
  qed
next
  case (RefreshSettled res)
  consider (ok) v where "res = Fulfilled v" "truthy v"
    | (bad) e v where "res = Failed e \<or> (res = Fulfilled v \<and> \<not> truthy v
          \<and> e = PlainError ''No access token in refresh response'')"
    by (cases res) auto
  then show ?thesis
  proof cases
    case ok
    then show ?thesis using RefreshSettled
      by (simp add: step_def refresh_settled_success)
  next
    case bad
    show ?thesis using RefreshSettled
      by (simp add: step_def refresh_settled_failure [OF bad])
  qed
next
  case (Login a r)
  then show ?thesis by (simp add: step_def)
next
  case Logout
  then show ?thesis by (simp add: step_def)
next
  case (SetItem k v)
  then show ?thesis by (simp add: step_def)
next
  case (RemoveItem k)
  then show ?thesis by (simp add: step_def)
qed

lemma distinct_promises_step:
  assumes "pipeline_inv s" "distinct (map promise (subscribers s))"
  shows "distinct (map promise (subscribers (step ev s)))"
proof -
  from assms(1) have old: "\<And>cb. cb \<in> set (subscribers s) \<Longrightarrow> promise cb < next_promise s"
    by (simp add: pipeline_inv_def)
  have fresh: "next_promise s \<notin> promise ` set (subscribers s)"
  proof
    assume "next_promise s \<in> promise ` set (subscribers s)"
    then obtain x where "x \<in> set (subscribers s)" "next_promise s = promise x"
      by blast
    with old [of x] show False by simp
  qed
  from subscribers_step_cases [OF assms(1), of ev] show ?thesis
    using assms(2) fresh by auto
qed

lemma distinct_promises_run:
  "pipeline_inv s \<Longrightarrow> distinct (map promise (subscribers s)) \<Longrightarrow>
   distinct (map promise (subscribers (run s evs)))"
proof (induction evs arbitrary: s)
  case Nil
  then show ?case by (simp add: run_Nil)
next
  case (Cons ev evs)
  then show ?case
    by (simp add: run_Cons pipeline_inv_step distinct_promises_step)
qed

lemma distinct_promises_reachable: "distinct (map promise (subscribers (run (init ls) evs)))"
  by (rule distinct_promises_run) (simp_all add: pipeline_inv_init, simp add: init_def)

lemma run_from_idle:
  assumes "\<not> isRefreshing s" "get_refresh (localStorage s) = Some r" "r \<noteq> []"
    "\<forall>x \<in> set (e # es). status x = Some 401 \<and> \<not> isRetryRequest (config_of x)"
  shows "network (run s (map ResponseError (e # es))) = network s @ [RefreshCall r]"
    "refresh_pending (run s (map ResponseError (e # es))) = Suc (refresh_pending s)"
    "map original (subscribers (run s (map ResponseError (e # es)))) =
       map original (subscribers s) @ (config_of e)\<lparr>isRetryRequest := True\<rparr> # map config_of es"
proof -
  let ?s = "step (ResponseError e) s"
  have e: "status e = Some 401" "\<not> isRetryRequest (config_of e)"
    using assms(4) by auto
  have first: "network ?s = network s @ [RefreshCall r]"
    "refresh_pending ?s = Suc (refresh_pending s)"
    "subscribers ?s = subscribers s @
       [\<lparr>original = (config_of e)\<lparr>isRetryRequest := True\<rparr>, promise = next_promise s\<rparr>]"
    "isRefreshing ?s" "localStorage ?s = localStorage s"
    by (simp_all add: step_def response_error_start [OF e assms(2,3,1)])
  have rest: "network (run ?s (map ResponseError es)) = network ?s
    \<and> refresh_pending (run ?s (map ResponseError es)) = refresh_pending ?s
    \<and> map original (subscribers (run ?s (map ResponseError es))) =
        map original (subscribers ?s) @ map config_of es"
    using assms first by (intro run_in_flight [of _ r]) simp_all
  show "network (run s (map ResponseError (e # es))) = network s @ [RefreshCall r]"
    using rest by (simp add: run_Cons first)
  show "refresh_pending (run s (map ResponseError (e # es))) = Suc (refresh_pending s)"
    using rest by (simp add: run_Cons first)
  show "map original (subscribers (run s (map ResponseError (e # es)))) =
       map original (subscribers s) @ (config_of e)\<lparr>isRetryRequest := True\<rparr> # map config_of es"
    using rest by (simp add: run_Cons first)
qed

text \<open>
  C8. A request is enqueued at the end of the queue. When a refresh in flight succeeds, the
  continuations run in queue order, first enqueued first: the replays they issue appear on
  the network in that order, each pending caller is resolved with the replay of its own
  request, the invocations are recorded in that order, and the queue is emptied. Over a
  whole cycle started from an idle state, the replays follow the refresh call in the order
  in which the 401 answers arrived.
\<close>

theorem continuations_in_queue_order:
  assumes "s = run (init ls) evs"
  shows "subscribers (addSubscriber sub s) = subscribers s @ [sub]
   \<and> (fst (response_error err s) = Await p \<longrightarrow>
        map promise (subscribers (snd (response_error err s))) = map promise (subscribers s) @ [p])
   \<and> (refresh_pending s = 1 \<and> truthy v \<longrightarrow>
        network (step (RefreshSettled (Fulfilled v)) s) =
          network s @ map (\<lambda>cb. ApiCall (bearer (js_String v) (original cb))) (subscribers s)
        \<and> notified (step (RefreshSettled (Fulfilled v)) s) =
          notified s @ map (\<lambda>cb. (promise cb, v)) (subscribers s)
        \<and> (\<forall>cb \<in> set (subscribers s). settled s (promise cb) = None \<longrightarrow>
             settled (step (RefreshSettled (Fulfilled v)) s) (promise cb)
               = Some (Replayed (bearer (js_String v) (original cb))))
        \<and> subscribers (step (RefreshSettled (Fulfilled v)) s) = [])
   \<and> (refresh_pending s = 0 \<and> get_refresh (localStorage s) = Some r \<and> r \<noteq> []
        \<and> (\<forall>x \<in> set (e # es). status x = Some 401 \<and> \<not> isRetryRequest (config_of x))
        \<and> truthy v \<longrightarrow>
        network (step (RefreshSettled (Fulfilled v)) (run s (map ResponseError (e # es)))) =
          network s @ RefreshCall r #
            map (\<lambda>c. ApiCall (bearer (js_String v) c))
              (map original (subscribers s) @
                 (config_of e)\<lparr>isRetryRequest := True\<rparr> # map config_of es))"
proof -
  have inv: "pipeline_inv s"
    unfolding assms by (rule pipeline_inv_reachable)
  have dist: "distinct (map promise (subscribers s))"
    unfolding assms by (rule distinct_promises_reachable)
  have a: "subscribers (addSubscriber sub s) = subscribers s @ [sub]"
    by (simp add: addSubscriber_def)
  have q: "fst (response_error err s) = Await p \<longrightarrow>
        map promise (subscribers (snd (response_error err s))) = map promise (subscribers s) @ [p]"
    by (auto simp add: response_error_def Let_def addSubscriber_def start_refresh_def
        split: option.splits if_splits)
  have ok: "refresh_pending s = 1 \<and> truthy v \<longrightarrow>
        network (step (RefreshSettled (Fulfilled v)) s) =
          network s @ map (\<lambda>cb. ApiCall (bearer (js_String v) (original cb))) (subscribers s)
        \<and> notified (step (RefreshSettled (Fulfilled v)) s) =
          notified s @ map (\<lambda>cb. (promise cb, v)) (subscribers s)
        \<and> (\<forall>cb \<in> set (subscribers s). settled s (promise cb) = None \<longrightarrow>
             settled (step (RefreshSettled (Fulfilled v)) s) (promise cb)
               = Some (Replayed (bearer (js_String v) (original cb))))
        \<and> subscribers (step (RefreshSettled (Fulfilled v)) s) = []"
  proof (intro impI, elim conjE)
    assume pend: "refresh_pending s = 1" and t: "truthy v"
    have eq: "step (RefreshSettled (Fulfilled v)) s = refresh_settled (Fulfilled v) s"
      using pend by (simp add: step_def)
    have n: "network (refresh_settled (Fulfilled v) s) =
          network s @ map (\<lambda>cb. ApiCall (bearer (js_String v) (original cb))) (subscribers s)"
      by (rule refresh_success_network [OF t])
    have m: "notified (refresh_settled (Fulfilled v) s) =
          notified s @ map (\<lambda>cb. (promise cb, v)) (subscribers s)"
      by (rule refresh_success_notified [OF t])
    have st: "settled (refresh_settled (Fulfilled v) s) (promise cb)
               = Some (Replayed (bearer (js_String v) (original cb)))"
      if "cb \<in> set (subscribers s)" "settled s (promise cb) = None" for cb
      using that dist
      by (simp add: refresh_settled_success [OF t] foldl_invoke_settled_own)
    have e: "subscribers (refresh_settled (Fulfilled v) s) = []"
      by (simp add: refresh_settled_success [OF t])
    show "network (step (RefreshSettled (Fulfilled v)) s) =
          network s @ map (\<lambda>cb. ApiCall (bearer (js_String v) (original cb))) (subscribers s)
        \<and> notified (step (RefreshSettled (Fulfilled v)) s) =
          notified s @ map (\<lambda>cb. (promise cb, v)) (subscribers s)
        \<and> (\<forall>cb \<in> set (subscribers s). settled s (promise cb) = None \<longrightarrow>
             settled (step (RefreshSettled (Fulfilled v)) s) (promise cb)
               = Some (Replayed (bearer (js_String v) (original cb))))
        \<and> subscribers (step (RefreshSettled (Fulfilled v)) s) = []"
      unfolding eq by (intro conjI ballI impI n m e st)
  qed
  have cycle: "refresh_pending s = 0 \<and> get_refresh (localStorage s) = Some r \<and> r \<noteq> []
        \<and> (\<forall>x \<in> set (e # es). status x = Some 401 \<and> \<not> isRetryRequest (config_of x))
        \<and> truthy v \<longrightarrow>
        network (step (RefreshSettled (Fulfilled v)) (run s (map ResponseError (e # es)))) =
          network s @ RefreshCall r #
            map (\<lambda>c. ApiCall (bearer (js_String v) c))
              (map original (subscribers s) @
                 (config_of e)\<lparr>isRetryRequest := True\<rparr> # map config_of es)"
  proof (intro impI, elim conjE)
    assume h: "refresh_pending s = 0" "get_refresh (localStorage s) = Some r" "r \<noteq> []"
      "\<forall>x \<in> set (e # es). status x = Some 401 \<and> \<not> isRetryRequest (config_of x)"
      and t: "truthy v"
    have off: "\<not> isRefreshing s"
      by (rule notI) (use inv h(1) in \<open>simp add: pipeline_inv_def\<close>)
    define s1 where "s1 = run s (map ResponseError (e # es))"
    have f: "network s1 = network s @ [RefreshCall r]" "refresh_pending s1 = 1"
      "map original (subscribers s1) =
         map original (subscribers s) @ (config_of e)\<lparr>isRetryRequest := True\<rparr> # map config_of es"
      unfolding s1_def using run_from_idle [OF off h(2,3,4)] h(1) by simp_all
    have eq: "step (RefreshSettled (Fulfilled v)) s1 = refresh_settled (Fulfilled v) s1"
      using f(2) by (simp add: step_def)
    have "network (refresh_settled (Fulfilled v) s1) =
        network s1 @ map (\<lambda>c. ApiCall (bearer (js_String v) c)) (map original (subscribers s1))"
      by (simp add: refresh_success_network [OF t] comp_def)
    then show "network (step (RefreshSettled (Fulfilled v)) (run s (map ResponseError (e # es)))) =
          network s @ RefreshCall r #
            map (\<lambda>c. ApiCall (bearer (js_String v) c))
              (map original (subscribers s) @
                 (config_of e)\<lparr>isRetryRequest := True\<rparr> # map config_of es)"
      unfolding s1_def [symmetric] eq by (simp add: f)
  qed
  show ?thesis
    by (intro conjI a q ok cycle)
qed

text \<open>Three requests queued in the order /a, /b, /c are replayed in that order.\<close>

theorem continuations_in_queue_order_witness:
  "refresh_pending (run (init Map.empty) [Login (JStr ''A1'') (JStr ''R1''),
         ResponseError (unauthorized 1 (get_request ''/a'')),
         ResponseError (unauthorized 2 (get_request ''/b'')),
         ResponseError (unauthorized 3 (get_request ''/c''))]) = 1
   \<and> truthy (JStr ''A2'')
   \<and> map promise (subscribers (run (init Map.empty) [Login (JStr ''A1'') (JStr ''R1''),
         ResponseError (unauthorized 1 (get_request ''/a'')),
         ResponseError (unauthorized 2 (get_request ''/b'')),
         ResponseError (unauthorized 3 (get_request ''/c''))])) = [0, 1, 2]
   \<and> map (url \<circ> original) (subscribers (run (init Map.empty) [Login (JStr ''A1'') (JStr ''R1''),
         ResponseError (unauthorized 1 (get_request ''/a'')),
         ResponseError (unauthorized 2 (get_request ''/b'')),
         ResponseError (unauthorized 3 (get_request ''/c''))])) = [''/a'', ''/b'', ''/c'']
   \<and> settled (run (init Map.empty) [Login (JStr ''A1'') (JStr ''R1''),
         ResponseError (unauthorized 1 (get_request ''/a'')),
         ResponseError (unauthorized 2 (get_request ''/b'')),
         ResponseError (unauthorized 3 (get_request ''/c''))]) 1 = None
   \<and> network (step (RefreshSettled (Fulfilled (JStr ''A2'')))
        (run (init Map.empty) [Login (JStr ''A1'') (JStr ''R1''),
         ResponseError (unauthorized 1 (get_request ''/a'')),
         ResponseError (unauthorized 2 (get_request ''/b'')),
         ResponseError (unauthorized 3 (get_request ''/c''))])) =
       [RefreshCall ''R1'',
        ApiCall (bearer ''A2'' ((get_request ''/a'')\<lparr>isRetryRequest := True\<rparr>)),
        ApiCall (bearer ''A2'' (get_request ''/b'')),
        ApiCall (bearer ''A2'' (get_request ''/c''))]
   \<and> settled (step (RefreshSettled (Fulfilled (JStr ''A2'')))
        (run (init Map.empty) [Login (JStr ''A1'') (JStr ''R1''),
         ResponseError (unauthorized 1 (get_request ''/a'')),
         ResponseError (unauthorized 2 (get_request ''/b'')),
         ResponseError (unauthorized 3 (get_request ''/c''))])) 1
       = Some (Replayed (bearer ''A2'' (get_request ''/b'')))
   \<and> notified (step (RefreshSettled (Fulfilled (JStr ''A2'')))
        (run (init Map.empty) [Login (JStr ''A1'') (JStr ''R1''),
         ResponseError (unauthorized 1 (get_request ''/a'')),
         ResponseError (unauthorized 2 (get_request ''/b'')),
         ResponseError (unauthorized 3 (get_request ''/c''))]))
       = [(0, JStr ''A2''), (1, JStr ''A2''), (2, JStr ''A2'')]
   \<and> refresh_pending (run (init Map.empty) [Login (JStr ''A1'') (JStr ''R1'')]) = 0
   \<and> get_refresh (localStorage (run (init Map.empty) [Login (JStr ''A1'') (JStr ''R1'')])) = Some ''R1''
   \<and> network (step (RefreshSettled (Fulfilled (JStr ''A2'')))
        (run (run (init Map.empty) [Login (JStr ''A1'') (JStr ''R1'')])
           (map ResponseError [unauthorized 1 (get_request ''/a''),
              unauthorized 2 (get_request ''/b''), unauthorized 3 (get_request ''/c'')]))) =
       [RefreshCall ''R1'',
        ApiCall (bearer ''A2'' ((get_request ''/a'')\<lparr>isRetryRequest := True\<rparr>)),
        ApiCall (bearer ''A2'' (get_request ''/b'')),
        ApiCall (bearer ''A2'' (get_request ''/c''))]"
  using continuations_in_queue_order [where s = "run (init Map.empty) [Login (JStr ''A1'') (JStr ''R1'')]"
      and ls = Map.empty and evs = "[Login (JStr ''A1'') (JStr ''R1'')]" and v = "JStr ''A2''"
      and sub = "\<lparr>original = get_request ''/d'', promise = 3\<rparr>"
      and err = "unauthorized 4 (get_request ''/d'')" and p = 3
      and r = "''R1''" and e = "unauthorized 1 (get_request ''/a'')"
      and es = "[unauthorized 2 (get_request ''/b''), unauthorized 3 (get_request ''/c'')]", OF refl]
    continuations_in_queue_order [where s = "run (init Map.empty) [Login (JStr ''A1'') (JStr ''R1''),
         ResponseError (unauthorized 1 (get_request ''/a'')),
         ResponseError (unauthorized 2 (get_request ''/b'')),
         ResponseError (unauthorized 3 (get_request ''/c''))]" and ls = Map.empty
      and evs = "[Login (JStr ''A1'') (JStr ''R1''),
         ResponseError (unauthorized 1 (get_request ''/a'')),
         ResponseError (unauthorized 2 (get_request ''/b'')),
         ResponseError (unauthorized 3 (get_request ''/c''))]" and v = "JStr ''A2''"
      and sub = "\<lparr>original = get_request ''/d'', promise = 3\<rparr>"
      and err = "unauthorized 4 (get_request ''/d'')" and p = 3
      and r = "''R1''" and e = "unauthorized 4 (get_request ''/d'')" and es = "[]", OF refl]
  by (simp add: eval_defs)

section \<open>A 401 without a refresh token\<close>

text \<open>
  C5, as the code has it. A request not yet marked as retried that is answered with 401
  while the store holds no refresh token: the caller gets the original error, the store
  ends with neither token, and no call is issued, no request queued and no refresh started.
\<close>

theorem no_refresh_token_path:
  assumes "status err = Some 401" "\<not> isRetryRequest (config_of err)"
    "get_refresh (localStorage s) = None"
  shows "fst (response_error err s) = Propagate err
    \<and> get_access (localStorage (snd (response_error err s))) = None
    \<and> get_refresh (localStorage (snd (response_error err s))) = None
    \<and> network (snd (response_error err s)) = network s
    \<and> subscribers (snd (response_error err s)) = subscribers s
    \<and> refresh_pending (snd (response_error err s)) = refresh_pending s
    \<and> isRefreshing (snd (response_error err s)) = isRefreshing s"
  using assms
  by (simp add: response_error_no_refresh get_access_clear get_refresh_clear)

theorem no_refresh_token_path_witness:
  "status (unauthorized 1 (bearer ''A1'' (get_request ''/a''))) = Some 401
   \<and> \<not> isRetryRequest (config_of (unauthorized 1 (bearer ''A1'' (get_request ''/a''))))
   \<and> get_refresh (localStorage (run (init Map.empty) [SetItem ''access'' (JStr ''A1'')])) = None
   \<and> get_access (localStorage (run (init Map.empty) [SetItem ''access'' (JStr ''A1'')])) = Some ''A1''
   \<and> fst (response_error (unauthorized 1 (bearer ''A1'' (get_request ''/a'')))
        (run (init Map.empty) [SetItem ''access'' (JStr ''A1'')]))
       = Propagate (unauthorized 1 (bearer ''A1'' (get_request ''/a'')))
   \<and> get_access (localStorage (snd (response_error (unauthorized 1 (bearer ''A1'' (get_request ''/a'')))
        (run (init Map.empty) [SetItem ''access'' (JStr ''A1'')])))) = None
   \<and> network (snd (response_error (unauthorized 1 (bearer ''A1'' (get_request ''/a'')))
        (run (init Map.empty) [SetItem ''access'' (JStr ''A1'')]))) = []"
  using no_refresh_token_path [of "unauthorized 1 (bearer ''A1'' (get_request ''/a''))"
      "run (init Map.empty) [SetItem ''access'' (JStr ''A1'')]"]
  by (simp add: eval_defs)

text \<open>
  C5 as stated fails for a request already marked as retried. A logout while the refresh is
  in flight, then a successful refresh, leave a store with an access token and no refresh
  token; the replayed request carries the flag, and its 401 is passed on without clearing
  the store.
\<close>

theorem no_refresh_token_path_counterexample:
  "get_refresh (localStorage (run (init Map.empty)
      [Login (JStr ''A1'') (JStr ''R1''),
       ResponseError (unauthorized 1 (get_request ''/a'')),
       Logout,
       RefreshSettled (Fulfilled (JStr ''A2''))])) = None
   \<and> network (run (init Map.empty)
      [Login (JStr ''A1'') (JStr ''R1''),
       ResponseError (unauthorized 1 (get_request ''/a'')),
       Logout,
       RefreshSettled (Fulfilled (JStr ''A2''))])
      = [RefreshCall ''R1'', ApiCall (bearer ''A2'' ((get_request ''/a'')\<lparr>isRetryRequest := True\<rparr>))]
   \<and> status (unauthorized 2 (bearer ''A2'' ((get_request ''/a'')\<lparr>isRetryRequest := True\<rparr>))) = Some 401
   \<and> get_access (localStorage (snd (response_error
        (unauthorized 2 (bearer ''A2'' ((get_request ''/a'')\<lparr>isRetryRequest := True\<rparr>)))
        (run (init Map.empty)
          [Login (JStr ''A1'') (JStr ''R1''),
           ResponseError (unauthorized 1 (get_request ''/a'')),
           Logout,
           RefreshSettled (Fulfilled (JStr ''A2''))])))) = Some ''A2''"
  by (simp add: eval_defs)

section \<open>A refresh answer without an access token\<close>

text \<open>
  C9. In any reachable state with a refresh call in flight, a 2xx answer whose access value
  is absent (or falsy) ends as a failed refresh: both tokens are removed from the store,
  nothing is written to it, no request is replayed and no subscriber is invoked, the cycle
  is idle again, and every queued request whose promise is still pending is rejected with
  the error thrown at line 73.
\<close>

theorem missing_access_is_failure:
  assumes "s = run (init ls) evs" "refresh_pending s = 1" "\<not> truthy v"
  shows "get_access (localStorage (step (RefreshSettled (Fulfilled v)) s)) = None
    \<and> get_refresh (localStorage (step (RefreshSettled (Fulfilled v)) s)) = None
    \<and> network (step (RefreshSettled (Fulfilled v)) s) = network s
    \<and> notified (step (RefreshSettled (Fulfilled v)) s) = notified s
    \<and> \<not> isRefreshing (step (RefreshSettled (Fulfilled v)) s)
    \<and> refresh_pending (step (RefreshSettled (Fulfilled v)) s) = 0
    \<and> (\<forall>cb \<in> set (subscribers s). settled s (promise cb) = None \<longrightarrow>
          settled (step (RefreshSettled (Fulfilled v)) s) (promise cb)
            = Some (Rejected (PlainError ''No access token in refresh response'')))"
proof -
  let ?e = "PlainError ''No access token in refresh response''"
  define s' where "s' = foldl (\<lambda>s' p. settle p (Rejected ?e) s')
       (s\<lparr>refresh_pending := refresh_pending s - 1,
          localStorage := clear (localStorage s),
          isRefreshing := False, refreshPromise := None\<rparr>) (waiting s)"
  have "refresh_settled (Fulfilled v) s = s'"
    unfolding s'_def using assms(3) by (intro refresh_settled_failure) simp
  then have eq: "step (RefreshSettled (Fulfilled v)) s = s'"
    using assms(2) by (simp add: step_def)
  have inv: "pipeline_inv s"
    unfolding assms(1) by (rule pipeline_inv_reachable)
  have fields: "localStorage s' = clear (localStorage s)" "network s' = network s"
    "notified s' = notified s" "\<not> isRefreshing s'" "refresh_pending s' = 0"
    unfolding s'_def using assms(2) by simp_all
  have st: "settled s' q =
      (if settled s q = None \<and> q \<in> set (waiting s) then Some (Rejected ?e) else settled s q)" for q
    unfolding s'_def by (simp add: foldl_settle_settled)
  have rej: "\<forall>cb \<in> set (subscribers s). settled s (promise cb) = None \<longrightarrow>
      settled s' (promise cb) = Some (Rejected ?e)"
    using inv by (auto simp: pipeline_inv_def st)
  show ?thesis
    unfolding eq using fields rej by (simp add: get_access_clear get_refresh_clear)
qed

theorem missing_access_is_failure_witness:
  "refresh_pending (run (init Map.empty)
      [Login (JStr ''A1'') (JStr ''R1''),
       ResponseError (unauthorized 1 (get_request ''/a'')),
       ResponseError (unauthorized 2 (get_request ''/b''))]) = 1
   \<and> \<not> truthy JUndefined
   \<and> map promise (subscribers (run (init Map.empty)
      [Login (JStr ''A1'') (JStr ''R1''),
       ResponseError (unauthorized 1 (get_request ''/a'')),
       ResponseError (unauthorized 2 (get_request ''/b''))])) = [0, 1]
   \<and> settled (run (init Map.empty)
      [Login (JStr ''A1'') (JStr ''R1''),
       ResponseError (unauthorized 1 (get_request ''/a'')),
       ResponseError (unauthorized 2 (get_request ''/b''))]) 1 = None
   \<and> settled (step (RefreshSettled (Fulfilled JUndefined)) (run (init Map.empty)
      [Login (JStr ''A1'') (JStr ''R1''),
       ResponseError (unauthorized 1 (get_request ''/a'')),
       ResponseError (unauthorized 2 (get_request ''/b''))])) 1
      = Some (Rejected (PlainError ''No access token in refresh response''))
   \<and> get_access (localStorage (step (RefreshSettled (Fulfilled JUndefined)) (run (init Map.empty)
      [Login (JStr ''A1'') (JStr ''R1''),
       ResponseError (unauthorized 1 (get_request ''/a'')),
       ResponseError (unauthorized 2 (get_request ''/b''))]))) = None
   \<and> network (step (RefreshSettled (Fulfilled JUndefined)) (run (init Map.empty)
      [Login (JStr ''A1'') (JStr ''R1''),
       ResponseError (unauthorized 1 (get_request ''/a'')),
       ResponseError (unauthorized 2 (get_request ''/b''))])) = [RefreshCall ''R1'']"
  using missing_access_is_failure [of "run (init Map.empty)
      [Login (JStr ''A1'') (JStr ''R1''),
       ResponseError (unauthorized 1 (get_request ''/a'')),
       ResponseError (unauthorized 2 (get_request ''/b''))]" Map.empty
      "[Login (JStr ''A1'') (JStr ''R1''),
       ResponseError (unauthorized 1 (get_request ''/a'')),
       ResponseError (unauthorized 2 (get_request ''/b''))]" JUndefined, OF refl]
  by (simp add: eval_defs)

section \<open>What a failed refresh leaves behind\<close>

text \<open>
  C2, evaluated on the code. After a failed refresh the caller of the queued request is
  rejected with the refresh error and the cycle is idle, but the subscriber stays in the
  queue: only \<^verbatim>\<open>onRefreshed\<close>, on the success path, empties it. After a new login,
  the next successful refresh invokes the stale subscriber and the request /a, whose caller
  was already rejected, is issued again next to /b.
\<close>

theorem refresh_failure_keeps_queue:
  "map original (subscribers (run (init Map.empty)
      [Login (JStr ''A1'') (JStr ''R1''),
       ResponseError (unauthorized 1 (get_request ''/a'')),
       RefreshSettled (Failed (PlainError ''Network Error''))]))
     = [(get_request ''/a'')\<lparr>isRetryRequest := True\<rparr>]
   \<and> settled (run (init Map.empty)
      [Login (JStr ''A1'') (JStr ''R1''),
       ResponseError (unauthorized 1 (get_request ''/a'')),
       RefreshSettled (Failed (PlainError ''Network Error''))]) 0
     = Some (Rejected (PlainError ''Network Error''))
   \<and> isRefreshing (run (init Map.empty)
      [Login (JStr ''A1'') (JStr ''R1''),
       ResponseError (unauthorized 1 (get_request ''/a'')),
       RefreshSettled (Failed (PlainError ''Network Error''))]) = False
   \<and> network (run (init Map.empty)
      [Login (JStr ''A1'') (JStr ''R1''),
       ResponseError (unauthorized 1 (get_request ''/a'')),
       RefreshSettled (Failed (PlainError ''Network Error'')),
       Login (JStr ''A3'') (JStr ''R3''),
       ResponseError (unauthorized 2 (get_request ''/b'')),
       RefreshSettled (Fulfilled (JStr ''A4''))])
     = [RefreshCall ''R1'', RefreshCall ''R3'',
        ApiCall (bearer ''A4'' ((get_request ''/a'')\<lparr>isRetryRequest := True\<rparr>)),
        ApiCall (bearer ''A4'' ((get_request ''/b'')\<lparr>isRetryRequest := True\<rparr>))]"
  by (simp add: eval_defs)

section \<open>Recovery of a queued request\<close>

text \<open>
  C3, evaluated on the code. The flag \<^verbatim>\<open>__isRetryRequest\<close> is set at line 67, inside
  the branch that starts the refresh, so a request queued behind a refresh that another
  request started is replayed without it. When its replay is answered with 401 it is
  recovered again: a second refresh call is issued and the request is replayed a second
  time.
\<close>

theorem queued_request_recovers_twice:
  "network (run (init Map.empty)
      [Login (JStr ''A1'') (JStr ''R1''),
       ResponseError (unauthorized 1 (get_request ''/a'')),
       ResponseError (unauthorized 2 (get_request ''/b'')),
       RefreshSettled (Fulfilled (JStr ''A2''))])
     = [RefreshCall ''R1'',
        ApiCall (bearer ''A2'' ((get_request ''/a'')\<lparr>isRetryRequest := True\<rparr>)),
        ApiCall (bearer ''A2'' (get_request ''/b''))]
   \<and> fst (response_error (unauthorized 3 (bearer ''A2'' (get_request ''/b'')))
       (run (init Map.empty)
      [Login (JStr ''A1'') (JStr ''R1''),
       ResponseError (unauthorized 1 (get_request ''/a'')),
       ResponseError (unauthorized 2 (get_request ''/b'')),
       RefreshSettled (Fulfilled (JStr ''A2''))])) = Await 2
   \<and> network (run (init Map.empty)
      [Login (JStr ''A1'') (JStr ''R1''),
       ResponseError (unauthorized 1 (get_request ''/a'')),
       ResponseError (unauthorized 2 (get_request ''/b'')),
       RefreshSettled (Fulfilled (JStr ''A2'')),
       ResponseError (unauthorized 3 (bearer ''A2'' (get_request ''/b''))),
       RefreshSettled (Fulfilled (JStr ''A3''))])
     = [RefreshCall ''R1'',
        ApiCall (bearer ''A2'' ((get_request ''/a'')\<lparr>isRetryRequest := True\<rparr>)),
        ApiCall (bearer ''A2'' (get_request ''/b'')),
        RefreshCall ''R1'',
        ApiCall (bearer ''A3'' ((get_request ''/b'')\<lparr>isRetryRequest := True\<rparr>))]"
  by (simp add: eval_defs)

end
